theory Spec2Isabelle
  imports Complex_Main "HOL-Library.Word"
begin

section \<open>The Doppler correction block of gr-satellites\<close>

text \<open>
  A shallow embedding of \<^verbatim>\<open>lib/doppler_correction_impl.cc\<close>: the constructor, the table
  reader \<^verbatim>\<open>read_doppler_file\<close> and the streaming function \<^verbatim>\<open>work\<close>.

  Conventions of the embedding.
  \<^item> A C++ \<^verbatim>\<open>double\<close> (and the \<^verbatim>\<open>float\<close> pair of \<^verbatim>\<open>gr_complex\<close>) is a \<^typ>\<open>real\<close>
    (\<^typ>\<open>complex\<close>): arithmetic is exact, and rounding, infinities and NaN are outside the
    model. Division by zero is one place where HOL and the machine differ (HOL gives 0, the
    machine an infinity or NaN): a quotient by the sample rate in a statement below is the
    expression of the code, and no statement relies on its value for the sample rate 0.
  \<^item> \<^verbatim>\<open>uint64_t\<close> is \<^typ>\<open>64 word\<close>; its subtraction wraps around.
  \<^item> \<^verbatim>\<open>size_t\<close> indices into the two vectors are \<^typ>\<open>nat\<close>: an index that is used is
    below the vector's size, so it never wraps.
  \<^item> An exception, and an out-of-range \<^verbatim>\<open>operator[]\<close> on a vector (undefined behaviour in
    C++), is a value \<open>Inl e\<close> of the result type.
  \<^item> The member function \<^verbatim>\<open>phase_wrap\<close> is declared in the header, which is not part of
    the source at hand; \<open>work\<close> takes it as the parameter \<open>phase_wrap\<close>, the function from
    the phase before the call to the phase after it.
\<close>

datatype error =
    FormatError      \<comment> \<open>\<^verbatim>\<open>std::runtime_error("format error in Doppler file")\<close>\<close>
  | PmtWrongType     \<comment> \<open>\<^verbatim>\<open>pmt::wrong_type\<close>\<close>
  | PmtOutOfRange    \<comment> \<open>\<^verbatim>\<open>pmt::out_of_range\<close>\<close>
  | OutOfBounds      \<comment> \<open>a vector read past its size\<close>

subsection \<open>The input file stream\<close>

text \<open>
  \<^verbatim>\<open>std::ifstream\<close> as far as \<^verbatim>\<open>read_doppler_file\<close> uses it: the characters not yet
  consumed and the two state bits the function can observe. A file that cannot be opened
  is \<open>None\<close>; the stream then starts with \<^verbatim>\<open>failbit\<close> set.
\<close>

record ifstream =
  buf :: string
  eofbit :: bool
  failbit :: bool

definition ifstream_open :: "string option \<Rightarrow> ifstream" where
  "ifstream_open file =
     (case file of
        None \<Rightarrow> \<lparr>buf = [], eofbit = False, failbit = True\<rparr>
      | Some content \<Rightarrow> \<lparr>buf = content, eofbit = False, failbit = False\<rparr>)"

definition good :: "ifstream \<Rightarrow> bool" where
  "good s = (\<not> eofbit s \<and> \<not> failbit s)"

definition eof :: "ifstream \<Rightarrow> bool" where
  "eof s = eofbit s"

text \<open>Character classes of the classic locale.\<close>

definition is_space :: "char \<Rightarrow> bool" where
  "is_space c = (c = CHR '' '' \<or> c = CHR 0x09 \<or> c = CHR 0x0A \<or> c = CHR 0x0B
                 \<or> c = CHR 0x0C \<or> c = CHR 0x0D)"

definition is_digit :: "char \<Rightarrow> bool" where
  "is_digit c = (c \<in> set ''0123456789'')"

definition is_sign :: "char \<Rightarrow> bool" where
  "is_sign c = (c = CHR ''+'' \<or> c = CHR ''-'')"

definition digit_val :: "char \<Rightarrow> nat" where
  "digit_val c = of_char c - 48"

definition digits_val :: "string \<Rightarrow> nat" where
  "digits_val ds = foldl (\<lambda>a c. 10 * a + digit_val c) 0 ds"

text \<open>
  The sentry that every formatted extraction constructs first (C++ standard,
  [istream.sentry]): a stream that is not \<^verbatim>\<open>good()\<close> gets \<^verbatim>\<open>failbit\<close>; otherwise white
  space is skipped, and reaching the end of the input while skipping sets
  \<^verbatim>\<open>eofbit | failbit\<close>. The second component tells whether the extraction may proceed.
\<close>

definition sentry :: "ifstream \<Rightarrow> ifstream \<times> bool" where
  "sentry s =
     (if \<not> good s then (s\<lparr>failbit := True\<rparr>, False)
      else let rest = dropWhile is_space (buf s) in
        if rest = [] then (s\<lparr>buf := [], eofbit := True, failbit := True\<rparr>, False)
        else (s\<lparr>buf := rest\<rparr>, True))"

text \<open>
  \<^verbatim>\<open>num_get::get\<close> for a \<^verbatim>\<open>double\<close> ([facet.num.get.virtuals]), for decimal fields:
  stage 2 accumulates an optional sign, digits, an optional point with digits and, once a
  digit has been seen, an optional exponent (letter, optional sign, digits); it stops at
  the first character that cannot continue the field or at the end of the input. Stage 3
  converts the accumulated characters. A sequence that is not a complete number is a
  conversion failure, and zero is stored; a number too large for a \<^verbatim>\<open>double\<close> (one that
  rounds to an infinity) is a failure too, and the largest finite value of its sign is
  stored. A number too small to be told from zero is not a failure. The result is the
  outcome of the conversion, the characters left, and whether stage 2 stopped at the end
  of the input (which sets \<^verbatim>\<open>eofbit\<close>). Hexadecimal fields and the words for infinity and
  NaN are not modelled.
\<close>

datatype conversion =
    Converted real   \<comment> \<open>the value of the field\<close>
  | Failed real      \<comment> \<open>the value stored together with \<^verbatim>\<open>failbit\<close>\<close>

text \<open>
  The largest finite \<^verbatim>\<open>double\<close>, and the magnitudes that round to an infinity: those from
  the midpoint between that value and \<open>2 ^ 1024\<close> on.
\<close>

definition dbl_max :: real where
  "dbl_max = (2 ^ 53 - 1) * 2 ^ 971"

definition dbl_overflows :: "real \<Rightarrow> bool" where
  "dbl_overflows v = (2 ^ 1024 - 2 ^ 970 \<le> \<bar>v\<bar>)"

definition take_sign :: "string \<Rightarrow> string \<times> string" where
  "take_sign cs =
     (case cs of
        [] \<Rightarrow> ([], [])
      | c # r \<Rightarrow> if is_sign c then ([c], r) else ([], cs))"

definition take_fraction :: "string \<Rightarrow> bool \<times> string \<times> string" where
  "take_fraction cs =
     (case cs of
        [] \<Rightarrow> (False, [], [])
      | c # r \<Rightarrow> if c = CHR ''.'' then (True, takeWhile is_digit r, dropWhile is_digit r)
                else (False, [], cs))"

definition take_exponent :: "bool \<Rightarrow> string \<Rightarrow> bool \<times> string \<times> string \<times> string" where
  "take_exponent found_mantissa cs =
     (case cs of
        [] \<Rightarrow> (False, [], [], [])
      | c # r \<Rightarrow>
          if found_mantissa \<and> (c = CHR ''e'' \<or> c = CHR ''E'')
          then (case take_sign r of
                  (sg, r') \<Rightarrow> (True, sg, takeWhile is_digit r', dropWhile is_digit r'))
          else (False, [], [], cs))"

definition scale10 :: "real \<Rightarrow> string \<Rightarrow> string \<Rightarrow> real" where
  "scale10 m sg ds =
     (if sg = ''-'' then m / 10 ^ digits_val ds else m * 10 ^ digits_val ds)"

definition num_get_double :: "string \<Rightarrow> conversion \<times> string \<times> bool" where
  "num_get_double cs =
     (case take_sign cs of (sg, r0) \<Rightarrow>
      let ip = takeWhile is_digit r0; r1 = dropWhile is_digit r0 in
      case take_fraction r1 of (dot, fp, r2) \<Rightarrow>
      let found_mantissa = (ip \<noteq> [] \<or> fp \<noteq> []) in
      case take_exponent found_mantissa r2 of (sci, esg, ed, r3) \<Rightarrow>
      let m = real (digits_val ip) + real (digits_val fp) / 10 ^ length fp;
          v = scale10 (if sg = ''-'' then - m else m) esg ed
      in (if \<not> (found_mantissa \<and> (if sci then ed \<noteq> [] else True)) then Failed 0
          else if dbl_overflows v then Failed (if v < 0 then - dbl_max else dbl_max)
          else Converted v,
          r3, r3 = []))"

text \<open>
  \<^verbatim>\<open>input_file >> v\<close> for a \<^verbatim>\<open>double v\<close> ([istream.formatted.reqmts],
  [istream.formatted.arithmetic]). When the sentry refuses, nothing is extracted and \<open>v\<close>
  keeps the value it had. When the conversion fails, \<^verbatim>\<open>failbit\<close> is set and the value of
  the failure is stored (the rule since C++11). The second argument is the content of \<open>v\<close>
  before the call.
\<close>

definition extract_double :: "ifstream \<Rightarrow> real \<Rightarrow> ifstream \<times> real" where
  "extract_double s v =
     (case sentry s of
        (s1, False) \<Rightarrow> (s1, v)
      | (s1, True) \<Rightarrow>
          (case num_get_double (buf s1) of
             (r, rest, at_end) \<Rightarrow>
               (case r of
                  Converted x \<Rightarrow> (s1\<lparr>buf := rest, eofbit := (eofbit s1 \<or> at_end)\<rparr>, x)
                | Failed x \<Rightarrow>
                    (s1\<lparr>buf := rest, eofbit := (eofbit s1 \<or> at_end), failbit := True\<rparr>, x))))"

subsection \<open>Reading the Doppler file\<close>

text \<open>
  The loop of \<^verbatim>\<open>read_doppler_file\<close> (lines 51 to 58). The locals \<^verbatim>\<open>time\<close> and
  \<^verbatim>\<open>frequency\<close> are arguments of the loop, since an extraction that the sentry refuses
  leaves them as they were; \<open>ts\<close> and \<open>fs\<close> are the members \<^verbatim>\<open>times\<close> and
  \<^verbatim>\<open>freqs_rad_per_sample\<close>.
\<close>

function read_loop :: "real \<Rightarrow> ifstream \<Rightarrow> real \<Rightarrow> real \<Rightarrow> real list \<Rightarrow> real list
    \<Rightarrow> error + (real list \<times> real list)" where
  "read_loop samp_rate input_file time frequency ts fs =
     (if eof input_file then Inr (ts, fs)
      else if \<not> good input_file then Inl FormatError
      else
        (case extract_double input_file time of (s1, time') \<Rightarrow>
         case extract_double s1 frequency of (s2, frequency') \<Rightarrow>
           read_loop samp_rate s2 time' frequency'
             (ts @ [time']) (fs @ [2 * pi * frequency' / samp_rate])))"
  by pat_completeness auto

text \<open>
  \<^verbatim>\<open>read_doppler_file\<close> (lines 45 to 59). The two locals are declared without an
  initialiser; what they hold before the first extraction is indeterminate, and is given
  here by the arguments \<open>time0\<close> and \<open>frequency0\<close>.
\<close>

definition read_doppler_file :: "string option \<Rightarrow> real \<Rightarrow> real \<Rightarrow> real
    \<Rightarrow> error + (real list \<times> real list)" where
  "read_doppler_file file samp_rate time0 frequency0 =
     read_loop samp_rate (ifstream_open file) time0 frequency0 [] []"

subsection \<open>The block\<close>

text \<open>
  The data members of \<^verbatim>\<open>doppler_correction_impl\<close> that \<open>work\<close> reads or writes. The member
  \<^verbatim>\<open>times\<close> is called \<open>times_vec\<close> here.
\<close>

record doppler_correction_impl =
  times_vec :: "real list"
  freqs_rad_per_sample :: "real list"
  d_phase :: real
  d_samp_rate :: real
  d_current_index :: nat
  d_t0 :: real
  d_sample_t0 :: "64 word"

text \<open>
  The factory \<^verbatim>\<open>doppler_correction::make\<close> with the constructor it calls (lines 20 to 41): the
  block it returns, or the exception of \<^verbatim>\<open>read_doppler_file\<close>.
\<close>

definition make_doppler_correction :: "string option \<Rightarrow> real \<Rightarrow> real \<Rightarrow> real \<Rightarrow> real
    \<Rightarrow> error + doppler_correction_impl" where
  "make_doppler_correction file samp_rate t0 time0 frequency0 =
     (case read_doppler_file file samp_rate time0 frequency0 of
        Inl e \<Rightarrow> Inl e
      | Inr (ts, fs) \<Rightarrow>
          Inr \<lparr>times_vec = ts, freqs_rad_per_sample = fs, d_phase = 0,
               d_samp_rate = samp_rate, d_current_index = 0, d_t0 = t0, d_sample_t0 = 0\<rparr>)"

subsection \<open>Stream tags\<close>

text \<open>
  The polymorphic values of GNU Radio that the tag loop inspects, with the three accessors
  it calls. \<^verbatim>\<open>pmt::to_uint64\<close> accepts an unsigned value or a non-negative integer,
  \<^verbatim>\<open>pmt::to_double\<close> any number, \<^verbatim>\<open>pmt::tuple_ref\<close> an index below the tuple's size.
\<close>

datatype pmt =
    PMT_Tuple "pmt list"
  | PMT_UInt64 "64 word"
  | PMT_Integer int
  | PMT_Real real
  | PMT_Other

fun is_tuple :: "pmt \<Rightarrow> bool" where
  "is_tuple (PMT_Tuple xs) = True"
| "is_tuple _ = False"

fun tuple_ref :: "pmt \<Rightarrow> nat \<Rightarrow> error + pmt" where
  "tuple_ref (PMT_Tuple xs) k = (if k < length xs then Inr (xs ! k) else Inl PmtOutOfRange)"
| "tuple_ref _ k = Inl PmtWrongType"

fun to_uint64 :: "pmt \<Rightarrow> error + 64 word" where
  "to_uint64 (PMT_UInt64 w) = Inr w"
| "to_uint64 (PMT_Integer i) = (if 0 \<le> i then Inr (word_of_int i) else Inl PmtWrongType)"
| "to_uint64 _ = Inl PmtWrongType"

fun to_double :: "pmt \<Rightarrow> error + real" where
  "to_double (PMT_Real r) = Inr r"
| "to_double (PMT_Integer i) = Inr (real_of_int i)"
| "to_double (PMT_UInt64 w) = Inr (real (unat w))"
| "to_double _ = Inl PmtWrongType"

record tag_t =
  offset :: "64 word"
  tag_value :: pmt

text \<open>
  The body of the tag loop (lines 70 to 75) and the loop itself (lines 69 to 76). The list
  of tags is what \<^verbatim>\<open>get_tags_in_window\<close> delivered: the tags with key \<^verbatim>\<open>rx_time\<close> whose
  absolute offset falls in the buffer.
\<close>

definition set_time :: "doppler_correction_impl \<Rightarrow> tag_t \<Rightarrow> error + doppler_correction_impl" where
  "set_time st tag =
     (if is_tuple (tag_value tag) then
        (case tuple_ref (tag_value tag) 0 of Inl e \<Rightarrow> Inl e | Inr a \<Rightarrow>
         case to_uint64 a of Inl e \<Rightarrow> Inl e | Inr full_secs \<Rightarrow>
         case tuple_ref (tag_value tag) 1 of Inl e \<Rightarrow> Inl e | Inr b \<Rightarrow>
         case to_double b of Inl e \<Rightarrow> Inl e | Inr frac_secs \<Rightarrow>
           Inr (st\<lparr>d_sample_t0 := offset tag, d_t0 := real (unat full_secs) + frac_secs\<rparr>))
      else Inr st)"

fun set_times :: "doppler_correction_impl \<Rightarrow> tag_t list \<Rightarrow> error + doppler_correction_impl" where
  "set_times st [] = Inr st"
| "set_times st (tag # tags) =
     (case set_time st tag of Inl e \<Rightarrow> Inl e | Inr st' \<Rightarrow> set_times st' tags)"

subsection \<open>The frequency lookup\<close>

text \<open>The loop that advances \<^verbatim>\<open>d_current_index\<close> (lines 82 to 84).\<close>

function advance_index :: "real list \<Rightarrow> nat \<Rightarrow> real \<Rightarrow> nat" where
  "advance_index ts i time =
     (if i + 1 < length ts \<and> ts ! (i + 1) \<le> time then advance_index ts (i + 1) time else i)"
  by pat_completeness auto
termination
  by (relation "measure (\<lambda>(ts, i, time). length ts - i)") auto

text \<open>
  The lookup of one sample (lines 82 to 96): the index after the loop and the frequency.
  Every vector read is checked against the vector's size.
\<close>

definition query_frequency :: "real list \<Rightarrow> real list \<Rightarrow> nat \<Rightarrow> real \<Rightarrow> error + (nat \<times> real)" where
  "query_frequency ts fs index time =
     (let i = advance_index ts index time in
      if \<not> i < length ts then Inl OutOfBounds
      else if time < ts ! i \<or> i + 1 = length ts then
        (if i < length fs then Inr (i, fs ! i) else Inl OutOfBounds)
      else if \<not> i + 1 < length fs then Inl OutOfBounds
      else
        let alpha = (time - ts ! i) / (ts ! (i + 1) - ts ! i)
        in Inr (i, (1 - alpha) * fs ! i + alpha * fs ! (i + 1)))"

subsection \<open>Processing a buffer\<close>

text \<open>
  The absolute time of sample \<open>j\<close> of the buffer (line 79); \<open>nw\<close> is
  \<^verbatim>\<open>nitems_written(0)\<close>. The subtraction and the addition are those of \<^verbatim>\<open>uint64_t\<close>.
\<close>

definition sample_time :: "doppler_correction_impl \<Rightarrow> 64 word \<Rightarrow> nat \<Rightarrow> real" where
  "sample_time st nw j =
     d_t0 st + real (unat (nw - d_sample_t0 st + word_of_nat j)) / d_samp_rate st"

text \<open>
  What one pass through the sample loop computes: the locals \<^verbatim>\<open>time\<close> and \<^verbatim>\<open>freq\<close>, the
  index and the phase after the pass, and the output sample.
\<close>

record sample_log =
  s_time :: real
  s_index :: nat
  s_freq :: real
  s_phase :: real
  s_out :: complex

text \<open>
  One pass through the sample loop (lines 79 to 100), for input sample \<open>x\<close>;
  \<^verbatim>\<open>gr_expj\<close> is \<^const>\<open>cis\<close>.
\<close>

definition work_sample :: "(real \<Rightarrow> real) \<Rightarrow> 64 word \<Rightarrow> doppler_correction_impl \<Rightarrow> nat
    \<Rightarrow> complex \<Rightarrow> error + (doppler_correction_impl \<times> sample_log)" where
  "work_sample phase_wrap nw st j x =
     (let time = sample_time st nw j in
      case query_frequency (times_vec st) (freqs_rad_per_sample st) (d_current_index st) time of
        Inl e \<Rightarrow> Inl e
      | Inr (i, freq) \<Rightarrow>
          let phase = phase_wrap (d_phase st + freq);
              nco = cis (- phase)
          in Inr (st\<lparr>d_current_index := i, d_phase := phase\<rparr>,
                  \<lparr>s_time = time, s_index = i, s_freq = freq, s_phase = phase,
                   s_out = x * nco\<rparr>))"

text \<open>The sample loop (lines 78 to 101) from sample \<open>j\<close> on, over the rest of the input.\<close>

fun work_loop :: "(real \<Rightarrow> real) \<Rightarrow> 64 word \<Rightarrow> doppler_correction_impl \<Rightarrow> nat
    \<Rightarrow> complex list \<Rightarrow> error + (doppler_correction_impl \<times> sample_log list)" where
  "work_loop phase_wrap nw st j [] = Inr (st, [])"
| "work_loop phase_wrap nw st j (x # xs) =
     (case work_sample phase_wrap nw st j x of
        Inl e \<Rightarrow> Inl e
      | Inr (st1, l) \<Rightarrow>
          (case work_loop phase_wrap nw st1 (j + 1) xs of
             Inl e \<Rightarrow> Inl e
           | Inr (st2, ls) \<Rightarrow> Inr (st2, l # ls)))"

text \<open>
  \<^verbatim>\<open>work\<close> (lines 61 to 104) on the input buffer \<open>ins\<close> (\<^verbatim>\<open>noutput_items\<close> is its
  length): first the tag loop, then the sample loop. \<open>work_trace\<close> keeps what every pass
  computed; \<open>work\<close> returns the block after the call and the output buffer.
\<close>

definition work_trace :: "(real \<Rightarrow> real) \<Rightarrow> doppler_correction_impl \<Rightarrow> 64 word \<Rightarrow> tag_t list
    \<Rightarrow> complex list \<Rightarrow> error + (doppler_correction_impl \<times> sample_log list)" where
  "work_trace phase_wrap st nw tags ins =
     (case set_times st tags of
        Inl e \<Rightarrow> Inl e
      | Inr st' \<Rightarrow> work_loop phase_wrap nw st' 0 ins)"

definition work :: "(real \<Rightarrow> real) \<Rightarrow> doppler_correction_impl \<Rightarrow> 64 word \<Rightarrow> tag_t list
    \<Rightarrow> complex list \<Rightarrow> error + (doppler_correction_impl \<times> complex list)" where
  "work phase_wrap st nw tags ins =
     (case work_trace phase_wrap st nw tags ins of
        Inl e \<Rightarrow> Inl e
      | Inr (st', ls) \<Rightarrow> Inr (st', map s_out ls))"

text \<open>
  The state in which the constructor leaves the table, and \<open>work\<close> keeps it: both vectors
  of one length, not empty, and the index inside them.
\<close>

definition table_ok :: "doppler_correction_impl \<Rightarrow> bool" where
  "table_ok st =
     (times_vec st \<noteq> [] \<and> length (freqs_rad_per_sample st) = length (times_vec st)
      \<and> d_current_index st < length (times_vec st))"


section \<open>Properties of the stream and of the reader\<close>

lemma take_sign_length: "take_sign cs = (sg, r) \<Longrightarrow> length r \<le> length cs"
  by (auto simp: take_sign_def split: list.splits if_splits)

lemma digits_length:
  "length (dropWhile is_digit cs) + length (takeWhile is_digit cs) = length cs"
  by (metis add.commute length_append takeWhile_dropWhile_id)

lemma take_fraction_length:
  "take_fraction cs = (d, fp, r) \<Longrightarrow> length r + length fp \<le> length cs"
  using digits_length by (auto simp: take_fraction_def split: list.splits if_splits)

lemma take_exponent_length:
  "take_exponent b cs = (sci, esg, ed, r) \<Longrightarrow> length r \<le> length cs"
  apply (auto simp: take_exponent_def split: list.splits if_splits prod.splits
      dest!: take_sign_length)
  by (meson le_SucI le_trans length_dropWhile_le)+

text \<open>A successful conversion consumes at least one character.\<close>

lemma num_get_double_consumes:
  assumes "num_get_double cs = (Converted x, rest, e)"
  shows "length rest < length cs"
proof -
  obtain sg r0 where a: "take_sign cs = (sg, r0)" by (cases "take_sign cs")
  obtain d fp r2 where b: "take_fraction (dropWhile is_digit r0) = (d, fp, r2)"
    by (cases "take_fraction (dropWhile is_digit r0)")
  let ?ip = "takeWhile is_digit r0"
  let ?fm = "?ip \<noteq> [] \<or> fp \<noteq> []"
  obtain sci esg ed r3 where c: "take_exponent ?fm r2 = (sci, esg, ed, r3)"
    by (cases "take_exponent ?fm r2") auto
  from assms a b c have r: "rest = r3" and fm: "?fm"
    by (auto simp: num_get_double_def Let_def split: if_splits)
  have 1: "length r0 \<le> length cs" using a by (rule take_sign_length)
  have 2: "length r2 + length fp \<le> length (dropWhile is_digit r0)"
    using b by (rule take_fraction_length)
  have 3: "length r3 \<le> length r2" using c by (rule take_exponent_length)
  have 4: "length (dropWhile is_digit r0) + length ?ip = length r0" by (rule digits_length)
  from fm have "0 < length ?ip + length fp" by auto
  with 1 2 3 4 show ?thesis unfolding r by linarith
qed

text \<open>
  The state bits are only ever set: a stream that is good after an extraction was good
  before it, and the extraction consumed input.
\<close>

lemma extract_double_good:
  assumes "extract_double s v = (s', v')" "good s'"
  shows "good s \<and> length (buf s') < length (buf s)"
proof -
  have g: "good s" using assms
    by (auto simp: extract_double_def sentry_def good_def Let_def split: if_splits prod.splits)
  let ?rest = "dropWhile is_space (buf s)"
  from g assms obtain x where "num_get_double ?rest = (Converted x, buf s', eofbit s')"
    by (auto simp: extract_double_def sentry_def good_def Let_def
        split: if_splits prod.splits conversion.splits)
  then have "length (buf s') < length ?rest" by (rule num_get_double_consumes)
  also have "\<dots> \<le> length (buf s)" by (rule length_dropWhile_le)
  finally show ?thesis using g by simp
qed

text \<open>
  The loop ends on every input: a pass leaves the stream at its end, failed, or good and
  strictly shorter.
\<close>

termination read_loop
proof (relation "measure (\<lambda>(r, s, t, f, ts, fs).
          if eofbit s then 0 else if failbit s then 1 else 2 + length (buf s))", goal_cases)
  case 1
  show ?case by simp
next
  case (2 samp_rate input_file time frequency ts fs x1 x2 y1 y2)
  have g: "good input_file" using 2 by simp
  show ?case
  proof (cases "good y1")
    case True
    from 2(4) True have g1: "good x1" and l1: "length (buf y1) < length (buf x1)"
      using extract_double_good [of x1 frequency y1 y2] by simp_all
    from 2(3) g1 have "length (buf x1) < length (buf input_file)"
      using extract_double_good [of input_file time x1 x2] by simp
    with l1 True g show ?thesis by (simp add: good_def)
  next
    case False
    with g show ?thesis by (auto simp: good_def)
  qed
qed

declare read_loop.simps [simp del]

text \<open>Fields of moderate size do not overflow.\<close>

lemma dbl_overflows_small: "\<bar>v\<bar> \<le> 1000000000 \<Longrightarrow> dbl_overflows v = False"
proof -
  have "(1000000000 :: real) < 2 ^ 1024 - 2 ^ 970" by simp
  then show "\<bar>v\<bar> \<le> 1000000000 \<Longrightarrow> dbl_overflows v = False"
    by (simp add: dbl_overflows_def)
qed

lemmas stream_eval = dbl_overflows_small ifstream_open_def eof_def good_def extract_double_def sentry_def
  num_get_double_def take_sign_def take_fraction_def take_exponent_def scale10_def
  is_digit_def is_sign_def is_space_def digits_val_def digit_val_def Let_def

section \<open>Properties of the lookup\<close>

declare advance_index.simps [simp del]

lemma advance_index_ge: "index \<le> advance_index ts index time"
proof (induction ts index time rule: advance_index.induct)
  case (1 ts i time)
  then show ?case by (subst advance_index.simps) auto
qed

lemma advance_index_less:
  "index < length ts \<Longrightarrow> advance_index ts index time < length ts"
proof (induction ts index time rule: advance_index.induct)
  case (1 ts i time)
  then show ?case by (subst advance_index.simps) auto
qed

lemma advance_index_stops:
  "advance_index ts index time = i \<Longrightarrow> i + 1 < length ts \<Longrightarrow> time < ts ! (i + 1)"
proof (induction ts index time rule: advance_index.induct)
  case (1 ts j time)
  then show ?case by (subst (asm) (2) advance_index.simps) (auto split: if_splits)
qed

lemma advance_index_stay:
  "\<not> (index + 1 < length ts \<and> ts ! (index + 1) \<le> time) \<Longrightarrow> advance_index ts index time = index"
  by (subst advance_index.simps) auto

lemma advance_index_idem:
  "advance_index ts (advance_index ts index time) time = advance_index ts index time"
proof (induction ts index time rule: advance_index.induct)
  case (1 ts i time)
  show ?case
  proof (cases "i + 1 < length ts \<and> ts ! (i + 1) \<le> time")
    case True
    then have "advance_index ts i time = advance_index ts (i + 1) time"
      by (subst advance_index.simps) simp
    with 1 True show ?thesis by simp
  next
    case False
    then show ?thesis by (simp add: advance_index_stay)
  qed
qed

lemma advance_index_sorted_before:
  assumes "sorted ts" "ts \<noteq> []" "time < ts ! 0"
  shows "advance_index ts 0 time = 0"
proof (rule advance_index_stay)
  show "\<not> (0 + 1 < length ts \<and> ts ! (0 + 1) \<le> time)"
  proof
    assume a: "0 + 1 < length ts \<and> ts ! (0 + 1) \<le> time"
    then have "ts ! 0 \<le> ts ! 1" using assms(1) by (simp add: sorted_iff_nth_mono)
    with a assms(3) show False by simp
  qed
qed

lemma advance_index_sorted_after:
  "sorted ts \<Longrightarrow> index < length ts \<Longrightarrow> ts ! (length ts - 1) < time
     \<Longrightarrow> advance_index ts index time = length ts - 1"
proof (induction ts index time rule: advance_index.induct)
  case (1 ts i time)
  show ?case
  proof (cases "i + 1 < length ts")
    case True
    then have "ts ! (i + 1) \<le> ts ! (length ts - 1)"
      using "1.prems"(1) by (simp add: sorted_iff_nth_mono)
    with "1.prems"(3) have le: "ts ! (i + 1) \<le> time" by simp
    with True have "advance_index ts i time = advance_index ts (i + 1) time"
      by (subst advance_index.simps) simp
    with 1 True le show ?thesis by simp
  next
    case False
    with "1.prems"(2) have "i = length ts - 1" by simp
    with False show ?thesis by (simp add: advance_index_stay)
  qed
qed

lemma query_frequency_index:
  "query_frequency ts fs index time = Inr (i, f) \<Longrightarrow> i = advance_index ts index time"
  by (auto simp: query_frequency_def Let_def split: if_splits)

lemma query_frequency_total:
  assumes "index < length ts" "length fs = length ts"
  shows "\<exists>f. query_frequency ts fs index time = Inr (advance_index ts index time, f)"
proof -
  have "advance_index ts index time < length ts"
    using assms(1) by (rule advance_index_less)
  with assms(2) show ?thesis
    by (auto simp: query_frequency_def Let_def)
qed

text \<open>
  Claim C1. Let \<open>i\<close> be the index at which the advancing loop stops for the query time. If
  \<open>i\<close> is not the last index and \<open>ts ! i \<le> time\<close>, the lookup returns the linear
  interpolation \<open>(1 - alpha) * fs ! i + alpha * fs ! (i + 1)\<close> with
  \<open>alpha = (time - ts ! i) / (ts ! (i + 1) - ts ! i)\<close>; the divisor is positive there. For
  a table of two entries \<open>(t0, f0)\<close>, \<open>(t1, f1)\<close> with \<open>t0 < t1\<close>, a query at \<open>t0\<close> from
  the initial index returns \<open>f0\<close>, and a query at \<open>t1\<close> returns \<open>f1\<close>, from either index.
\<close>

theorem query_frequency_interpolates:
  "(length fs = length ts \<and> i = advance_index ts index time \<and> i + 1 < length ts
      \<and> ts ! i \<le> time
    \<longrightarrow> ts ! i < ts ! (i + 1)
        \<and> query_frequency ts fs index time =
            Inr (i, (1 - (time - ts ! i) / (ts ! (i + 1) - ts ! i)) * fs ! i
                    + (time - ts ! i) / (ts ! (i + 1) - ts ! i) * fs ! (i + 1)))
   \<and> (t0 < t1
    \<longrightarrow> query_frequency [t0, t1] [f0, f1] 0 t0 = Inr (0, f0)
        \<and> query_frequency [t0, t1] [f0, f1] 0 t1 = Inr (1, f1)
        \<and> query_frequency [t0, t1] [f0, f1] 1 t1 = Inr (1, f1))"
proof (intro conjI impI)
  assume a: "length fs = length ts \<and> i = advance_index ts index time \<and> i + 1 < length ts
      \<and> ts ! i \<le> time"
  then have l: "length fs = length ts" and i: "advance_index ts index time = i"
    and lt: "i + 1 < length ts" and le: "ts ! i \<le> time"
    by auto
  from i lt have "time < ts ! (i + 1)" by (rule advance_index_stops)
  with le show "ts ! i < ts ! (i + 1)" by simp
  from l lt le show "query_frequency ts fs index time =
            Inr (i, (1 - (time - ts ! i) / (ts ! (i + 1) - ts ! i)) * fs ! i
                    + (time - ts ! i) / (ts ! (i + 1) - ts ! i) * fs ! (i + 1))"
    unfolding query_frequency_def i by (simp add: Let_def)
next
  assume "t0 < t1"
  then show "query_frequency [t0, t1] [f0, f1] 0 t0 = Inr (0, f0)"
    by (simp add: query_frequency_def advance_index.simps)
next
  assume "t0 < t1"
  then show "query_frequency [t0, t1] [f0, f1] 0 t1 = Inr (1, f1)"
    by (simp add: query_frequency_def advance_index.simps)
next
  assume "t0 < t1"
  then show "query_frequency [t0, t1] [f0, f1] 1 t1 = Inr (1, f1)"
    by (simp add: query_frequency_def advance_index.simps)
qed

theorem query_frequency_interpolates_witness:
  "length [0, 10, 20 :: real] = length [0, 2, 4 :: real]
   \<and> 1 = advance_index [0, 2, 4] 0 3 \<and> 1 + 1 < length [0, 2, 4 :: real]
   \<and> [0, 2, 4 :: real] ! 1 \<le> 3
   \<and> query_frequency [0, 2, 4] [0, 10, 20] 0 3 = Inr (1, 15)
   \<and> (0 :: real) < 1
   \<and> query_frequency [0, 1] [5, 7] 0 0 = Inr (0, 5)
   \<and> query_frequency [0, 1] [5, 7] 0 1 = Inr (1, 7)"
  using query_frequency_interpolates [of "[0, 10, 20]" "[0, 2, 4]" 1 0 3 0 1 5 7]
  by (simp add: advance_index.simps)

text \<open>
  Claim C2. For a table that is not empty, with times in non-decreasing order as the data
  model has them: a query before \<open>ts ! 0\<close> from the initial index returns \<open>fs ! 0\<close>, and
  a query after the last time returns the last frequency, from whatever index. With the
  index already at the last entry the last frequency is returned for every query time,
  sorted table or not. Nothing is extrapolated.
\<close>

theorem query_frequency_holds_at_boundaries:
  assumes "ts \<noteq> []" "length fs = length ts"
  shows "(sorted ts \<and> time < ts ! 0 \<longrightarrow> query_frequency ts fs 0 time = Inr (0, fs ! 0))
    \<and> (sorted ts \<and> index < length ts \<and> ts ! (length ts - 1) < time
        \<longrightarrow> query_frequency ts fs index time = Inr (length ts - 1, fs ! (length ts - 1)))
    \<and> query_frequency ts fs (length ts - 1) time = Inr (length ts - 1, fs ! (length ts - 1))"
proof (intro conjI impI)
  assume a: "sorted ts \<and> time < ts ! 0"
  with assms have "advance_index ts 0 time = 0" by (simp add: advance_index_sorted_before)
  with a assms show "query_frequency ts fs 0 time = Inr (0, fs ! 0)"
    by (simp add: query_frequency_def)
next
  assume a: "sorted ts \<and> index < length ts \<and> ts ! (length ts - 1) < time"
  then have "advance_index ts index time = length ts - 1"
    by (simp add: advance_index_sorted_after)
  with assms show "query_frequency ts fs index time = Inr (length ts - 1, fs ! (length ts - 1))"
    by (simp add: query_frequency_def Let_def)
next
  have "\<not> length ts - 1 + 1 < length ts" by simp
  then have "advance_index ts (length ts - 1) time = length ts - 1"
    by (intro advance_index_stay) blast
  with assms show "query_frequency ts fs (length ts - 1) time
      = Inr (length ts - 1, fs ! (length ts - 1))"
    by (simp add: query_frequency_def Let_def)
qed

theorem query_frequency_holds_at_boundaries_witness:
  "[0, 2, 4 :: real] \<noteq> [] \<and> length [3, 10, 20 :: real] = length [0, 2, 4 :: real]
   \<and> sorted [0, 2, 4 :: real] \<and> (-1 :: real) < [0, 2, 4] ! 0
   \<and> query_frequency [0, 2, 4] [3, 10, 20] 0 (-1) = Inr (0, 3)
   \<and> (0 :: nat) < length [0, 2, 4 :: real] \<and> [0, 2, 4 :: real] ! 2 < 5
   \<and> query_frequency [0, 2, 4] [3, 10, 20] 0 5 = Inr (2, 20)
   \<and> query_frequency [0, 2, 4] [3, 10, 20] 2 1 = Inr (2, 20)"
  using query_frequency_holds_at_boundaries [of "[0, 2, 4]" "[3, 10, 20]" "-1" 0]
    query_frequency_holds_at_boundaries [of "[0, 2, 4]" "[3, 10, 20]" 5 0]
    query_frequency_holds_at_boundaries [of "[0, 2, 4]" "[3, 10, 20]" 1 0]
  by (simp add: numeral_2_eq_2)

section \<open>Properties of the tag loop and of the sample loop\<close>

lemma set_time_table:
  assumes "set_time st tag = Inr st'"
  shows "times_vec st' = times_vec st \<and> freqs_rad_per_sample st' = freqs_rad_per_sample st
    \<and> d_current_index st' = d_current_index st \<and> d_phase st' = d_phase st
    \<and> d_samp_rate st' = d_samp_rate st"
  using assms by (auto simp: set_time_def split: if_splits sum.splits)

lemma set_times_table:
  "set_times st tags = Inr st' \<Longrightarrow>
   times_vec st' = times_vec st \<and> freqs_rad_per_sample st' = freqs_rad_per_sample st
    \<and> d_current_index st' = d_current_index st \<and> d_phase st' = d_phase st
    \<and> d_samp_rate st' = d_samp_rate st"
proof (induction tags arbitrary: st)
  case Nil
  then show ?case by simp
next
  case (Cons tag tags)
  then obtain st1 where 1: "set_time st tag = Inr st1" and 2: "set_times st1 tags = Inr st'"
    by (auto split: sum.splits)
  from set_time_table [OF 1] Cons.IH [OF 2] show ?case by simp
qed

lemma set_times_table_ok: "set_times st tags = Inr st' \<Longrightarrow> table_ok st' = table_ok st"
  by (drule set_times_table) (simp add: table_ok_def)

lemma set_times_append:
  "set_times st (tags @ tags2) =
     (case set_times st tags of Inl e \<Rightarrow> Inl e | Inr st' \<Rightarrow> set_times st' tags2)"
  by (induction tags arbitrary: st) (auto split: sum.splits)

lemma work_sample_total:
  assumes "table_ok st"
  shows "\<exists>st' l. work_sample phase_wrap nw st j x = Inr (st', l)"
proof -
  from assms obtain f where
    "query_frequency (times_vec st) (freqs_rad_per_sample st) (d_current_index st)
       (sample_time st nw j)
     = Inr (advance_index (times_vec st) (d_current_index st) (sample_time st nw j), f)"
    using query_frequency_total [of "d_current_index st" "times_vec st" "freqs_rad_per_sample st"]
    by (auto simp: table_ok_def)
  then show ?thesis by (simp add: work_sample_def Let_def)
qed

lemma work_sample_fields:
  assumes "work_sample phase_wrap nw st j x = Inr (st', l)"
  shows "times_vec st' = times_vec st" "freqs_rad_per_sample st' = freqs_rad_per_sample st"
    "d_samp_rate st' = d_samp_rate st" "d_t0 st' = d_t0 st" "d_sample_t0 st' = d_sample_t0 st"
    "d_current_index st' = s_index l" "d_phase st' = s_phase l"
    "s_time l = sample_time st nw j"
    "s_index l = advance_index (times_vec st) (d_current_index st) (sample_time st nw j)"
    "s_phase l = phase_wrap (d_phase st + s_freq l)"
    "s_out l = x * cis (- s_phase l)"
  using assms
  by (auto simp: work_sample_def Let_def split: sum.splits dest: query_frequency_index)

lemma work_sample_table_ok:
  assumes "work_sample phase_wrap nw st j x = Inr (st', l)" "table_ok st"
  shows "table_ok st'"
proof -
  have "s_index l < length (times_vec st)"
    using assms(2) unfolding work_sample_fields(9) [OF assms(1)]
    by (intro advance_index_less) (simp add: table_ok_def)
  with assms(2) show ?thesis
    by (simp add: table_ok_def work_sample_fields [OF assms(1)])
qed

lemma work_loop_total:
  "table_ok st \<Longrightarrow> \<exists>st' ls. work_loop phase_wrap nw st j xs = Inr (st', ls)"
proof (induction xs arbitrary: st j)
  case Nil
  then show ?case by simp
next
  case (Cons x xs)
  from work_sample_total [OF Cons.prems] obtain st1 l
    where 1: "work_sample phase_wrap nw st j x = Inr (st1, l)" by blast
  from work_sample_table_ok [OF 1 Cons.prems] Cons.IH obtain st2 ls
    where "work_loop phase_wrap nw st1 (j + 1) xs = Inr (st2, ls)" by blast
  with 1 show ?case by simp
qed

lemma work_loop_length:
  "work_loop phase_wrap nw st j xs = Inr (st', ls) \<Longrightarrow> length ls = length xs"
  by (induction xs arbitrary: st j ls) (auto split: sum.splits)

lemma work_loop_anchor:
  "work_loop phase_wrap nw st j xs = Inr (st', ls) \<Longrightarrow>
   d_t0 st' = d_t0 st \<and> d_sample_t0 st' = d_sample_t0 st \<and> d_samp_rate st' = d_samp_rate st
   \<and> times_vec st' = times_vec st \<and> freqs_rad_per_sample st' = freqs_rad_per_sample st"
proof (induction xs arbitrary: st j ls)
  case Nil
  then show ?case by simp
next
  case (Cons x xs)
  then obtain st1 l ls1 where 1: "work_sample phase_wrap nw st j x = Inr (st1, l)"
    and 2: "work_loop phase_wrap nw st1 (j + 1) xs = Inr (st', ls1)"
    by (auto split: sum.splits)
  from Cons.IH [OF 2] work_sample_fields [OF 1] show ?case by simp
qed

lemma sample_time_anchor:
  "d_t0 st' = d_t0 st \<Longrightarrow> d_sample_t0 st' = d_sample_t0 st \<Longrightarrow> d_samp_rate st' = d_samp_rate st
   \<Longrightarrow> sample_time st' nw j = sample_time st nw j"
  by (simp add: sample_time_def)

lemma work_loop_times:
  "work_loop phase_wrap nw st j xs = Inr (st', ls) \<Longrightarrow> i < length xs \<Longrightarrow>
   s_time (ls ! i) = sample_time st nw (j + i)"
proof (induction xs arbitrary: st j ls i)
  case Nil
  then show ?case by simp
next
  case (Cons x xs)
  then obtain st1 l ls1 where 1: "work_sample phase_wrap nw st j x = Inr (st1, l)"
    and 2: "work_loop phase_wrap nw st1 (j + 1) xs = Inr (st', ls1)" and ls: "ls = l # ls1"
    by (auto split: sum.splits)
  note f = work_sample_fields [OF 1]
  show ?case
  proof (cases i)
    case 0
    with ls f show ?thesis by simp
  next
    case (Suc i')
    with Cons.prems have "i' < length xs" by simp
    from Cons.IH [OF 2 this] have "s_time (ls1 ! i') = sample_time st1 nw (j + 1 + i')" .
    also have "\<dots> = sample_time st nw (j + 1 + i')"
      using f by (intro sample_time_anchor) simp_all
    finally show ?thesis using ls Suc by simp
  qed
qed

lemma work_loop_cursor:
  "work_loop phase_wrap nw st j xs = Inr (st', ls) \<Longrightarrow>
   sorted (d_current_index st # map s_index ls)
   \<and> d_current_index st' = last (d_current_index st # map s_index ls)"
proof (induction xs arbitrary: st j ls)
  case Nil
  then show ?case by simp
next
  case (Cons x xs)
  then obtain st1 l ls1 where 1: "work_sample phase_wrap nw st j x = Inr (st1, l)"
    and 2: "work_loop phase_wrap nw st1 (j + 1) xs = Inr (st', ls1)" and ls: "ls = l # ls1"
    by (auto split: sum.splits)
  note f = work_sample_fields [OF 1]
  have le: "d_current_index st \<le> s_index l"
    unfolding f(9) by (rule advance_index_ge)
  from Cons.IH [OF 2] f(6) have s: "sorted (s_index l # map s_index ls1)"
    and e: "d_current_index st' = last (s_index l # map s_index ls1)" by simp_all
  from s le have "sorted (d_current_index st # s_index l # map s_index ls1)"
    by auto
  with e ls show ?case by simp
qed

lemma work_loop_zero:
  "work_loop phase_wrap nw st j xs = Inr (st', ls) \<Longrightarrow> phase_wrap 0 = 0 \<Longrightarrow> d_phase st = 0
   \<Longrightarrow> \<forall>l\<in>set ls. s_freq l = 0
   \<Longrightarrow> map s_out ls = xs \<and> d_phase st' = 0 \<and> (\<forall>l\<in>set ls. s_phase l = 0)"
proof (induction xs arbitrary: st j ls)
  case Nil
  then show ?case by simp
next
  case (Cons x xs)
  then obtain st1 l ls1 where 1: "work_sample phase_wrap nw st j x = Inr (st1, l)"
    and 2: "work_loop phase_wrap nw st1 (j + 1) xs = Inr (st', ls1)" and ls: "ls = l # ls1"
    by (auto split: sum.splits)
  note f = work_sample_fields [OF 1]
  from Cons.prems ls have z: "s_freq l = 0" and zs: "\<forall>l\<in>set ls1. s_freq l = 0" by simp_all
  from f(10) z Cons.prems(2,3) have p: "s_phase l = 0" by simp
  with f have p1: "d_phase st1 = 0" and o: "s_out l = x" by simp_all
  from Cons.IH [OF 2 Cons.prems(2) p1 zs] ls p o show ?case by simp
qed

lemma query_frequency_zero:
  assumes "query_frequency ts fs index time = Inr (i, f)" "\<forall>x\<in>set fs. x = 0"
  shows "f = 0"
proof -
  have z: "fs ! k = 0" if "k < length fs" for k
    using assms(2) that by (simp add: nth_mem)
  let ?i = "advance_index ts index time"
  show ?thesis
  proof (cases "time < ts ! ?i \<or> ?i + 1 = length ts")
    case True
    with assms(1) z [of ?i] show ?thesis
      by (auto simp: query_frequency_def Let_def split: if_splits)
  next
    case False
    with assms(1) have "?i + 1 < length fs"
      by (auto simp: query_frequency_def Let_def split: if_splits)
    with z [of ?i] z [of "?i + 1"] False assms(1) show ?thesis
      by (auto simp: query_frequency_def Let_def split: if_splits)
  qed
qed

lemma work_loop_zero_table:
  "work_loop phase_wrap nw st j xs = Inr (st', ls) \<Longrightarrow> \<forall>x\<in>set (freqs_rad_per_sample st). x = 0
   \<Longrightarrow> \<forall>l\<in>set ls. s_freq l = 0"
proof (induction xs arbitrary: st j ls)
  case Nil
  then show ?case by simp
next
  case (Cons x xs)
  then obtain st1 l ls1 where 1: "work_sample phase_wrap nw st j x = Inr (st1, l)"
    and 2: "work_loop phase_wrap nw st1 (j + 1) xs = Inr (st', ls1)" and ls: "ls = l # ls1"
    by (auto split: sum.splits)
  note f = work_sample_fields [OF 1]
  from 1 Cons.prems(2) have "s_freq l = 0"
    by (auto simp: work_sample_def Let_def split: sum.splits dest: query_frequency_zero)
  moreover from Cons.IH [OF 2] Cons.prems(2) f(2) have "\<forall>l\<in>set ls1. s_freq l = 0" by simp
  ultimately show ?case using ls by simp
qed

lemmas work_eval = work_def work_trace_def work_sample_def sample_time_def query_frequency_def
  advance_index.simps Let_def set_time_def table_ok_def
  unsigned_minus_1_eq_mask mask_eq_exp_minus_1

text \<open>
  Claim C7. Over the samples of a buffer the index \<^verbatim>\<open>d_current_index\<close> used by the
  successive lookups never decreases: the list that starts with the index before the call
  and continues with the index of every lookup is sorted, and the index left in the block
  is its last element. This holds whatever the query times are, so in particular when they
  are non-decreasing, and also when a query time lies before the time at the current
  index. The call returns for every table that is in order and every well-formed tag list.
\<close>

theorem cursor_never_rewinds:
  assumes "table_ok st" and "set_times st tags = Inr st0"
  shows "\<exists>st' ls. work_trace phase_wrap st nw tags ins = Inr (st', ls)
           \<and> length ls = length ins
           \<and> sorted (d_current_index st # map s_index ls)
           \<and> d_current_index st' = last (d_current_index st # map s_index ls)"
proof -
  from assms have ok: "table_ok st0" by (simp add: set_times_table_ok)
  from work_loop_total [OF ok] obtain st' ls
    where w: "work_loop phase_wrap nw st0 0 ins = Inr (st', ls)" by blast
  have i: "d_current_index st0 = d_current_index st"
    using set_times_table [OF assms(2)] by simp
  from w assms(2) have "work_trace phase_wrap st nw tags ins = Inr (st', ls)"
    by (simp add: work_trace_def)
  with work_loop_length [OF w] work_loop_cursor [OF w] i show ?thesis by simp
qed

theorem cursor_never_rewinds_witness:
  "table_ok \<lparr>times_vec = [0, 2, 4], freqs_rad_per_sample = [0, 0, 0], d_phase = 0,
        d_samp_rate = 1, d_current_index = 0, d_t0 = 3, d_sample_t0 = 0\<rparr>
   \<and> map s_index (snd (projr (work_trace id
        \<lparr>times_vec = [0, 2, 4], freqs_rad_per_sample = [0, 0, 0], d_phase = 0,
         d_samp_rate = 1, d_current_index = 0, d_t0 = 3, d_sample_t0 = 0\<rparr>
        0 [] [1, 2, 3]))) = [1, 2, 2]
   \<and> sorted (0 # [1, 2, 2 :: nat])"
  using cursor_never_rewinds [of
      "\<lparr>times_vec = [0, 2, 4], freqs_rad_per_sample = [0, 0, 0], d_phase = 0,
        d_samp_rate = 1, d_current_index = 0, d_t0 = 3, d_sample_t0 = 0\<rparr>" "[]"
      "\<lparr>times_vec = [0, 2, 4], freqs_rad_per_sample = [0, 0, 0], d_phase = 0,
        d_samp_rate = 1, d_current_index = 0, d_t0 = 3, d_sample_t0 = 0\<rparr>" id 0 "[1, 2, 3]"]
  by (simp add: work_eval numeral_2_eq_2)

text \<open>
  Claim C9. If the frequency found by every lookup of a call is 0, the phase before the
  call is 0 (the constructor's value) and \<^verbatim>\<open>phase_wrap\<close> leaves the phase 0 as it is,
  then the output buffer equals the input buffer, sample by sample, and the phase after the
  call is 0 again.
\<close>

theorem zero_frequency_is_identity:
  assumes "table_ok st" and "set_times st tags = Inr st0"
    and "phase_wrap 0 = 0" and "d_phase st = 0"
    and "\<forall>st' ls. work_trace phase_wrap st nw tags ins = Inr (st', ls)
           \<longrightarrow> (\<forall>l\<in>set ls. s_freq l = 0)"
  shows "\<exists>st'. work phase_wrap st nw tags ins = Inr (st', ins) \<and> d_phase st' = 0"
proof -
  from assms(1,2) have ok: "table_ok st0" by (simp add: set_times_table_ok)
  from work_loop_total [OF ok] obtain st' ls
    where w: "work_loop phase_wrap nw st0 0 ins = Inr (st', ls)" by blast
  with assms(2) have t: "work_trace phase_wrap st nw tags ins = Inr (st', ls)"
    by (simp add: work_trace_def)
  with assms(5) have z: "\<forall>l\<in>set ls. s_freq l = 0" by blast
  have p: "d_phase st0 = 0" using set_times_table [OF assms(2)] assms(4) by simp
  from work_loop_zero [OF w assms(3) p z] t show ?thesis by (simp add: work_def)
qed

theorem zero_frequency_is_identity_witness:
  "table_ok \<lparr>times_vec = [0, 2, 4], freqs_rad_per_sample = [0, 0, 5], d_phase = 0,
        d_samp_rate = 2, d_current_index = 0, d_t0 = 0, d_sample_t0 = 0\<rparr>
   \<and> id (0 :: real) = 0
   \<and> map s_freq (snd (projr (work_trace id
        \<lparr>times_vec = [0, 2, 4], freqs_rad_per_sample = [0, 0, 5], d_phase = 0,
         d_samp_rate = 2, d_current_index = 0, d_t0 = 0, d_sample_t0 = 0\<rparr>
        0 [] [1, \<i>, 3]))) = [0, 0, 0]
   \<and> (\<exists>st'. work id
        \<lparr>times_vec = [0, 2, 4], freqs_rad_per_sample = [0, 0, 5], d_phase = 0,
         d_samp_rate = 2, d_current_index = 0, d_t0 = 0, d_sample_t0 = 0\<rparr>
        0 [] [1, \<i>, 3] = Inr (st', [1, \<i>, 3]) \<and> d_phase st' = 0)"
  using zero_frequency_is_identity [of
      "\<lparr>times_vec = [0, 2, 4], freqs_rad_per_sample = [0, 0, 5], d_phase = 0,
        d_samp_rate = 2, d_current_index = 0, d_t0 = 0, d_sample_t0 = 0\<rparr>" "[]"
      "\<lparr>times_vec = [0, 2, 4], freqs_rad_per_sample = [0, 0, 5], d_phase = 0,
        d_samp_rate = 2, d_current_index = 0, d_t0 = 0, d_sample_t0 = 0\<rparr>" id 0 "[1, \<i>, 3]"]
  by (simp add: work_eval)





lemma sample_time_after_anchor:
  fixes nw :: "64 word"
  assumes "k \<le> j" "j < 2 ^ 31" "d_sample_t0 st = nw + word_of_nat k"
  shows "sample_time st nw j = d_t0 st + real (j - k) / d_samp_rate st"
proof -
  have "nw - (nw + word_of_nat k) + word_of_nat j = (word_of_nat (j - k) :: 64 word)"
    using assms(1) by (simp add: of_nat_diff)
  moreover have "unat (word_of_nat (j - k) :: 64 word) = j - k"
  proof -
    have "j - k < 2 ^ 64" using assms(2) by (rule_tac less_trans [of _ "2 ^ 31"]) simp_all
    then show ?thesis by (simp add: unat_of_nat take_bit_nat_eq_self)
  qed
  ultimately show ?thesis using assms(3) by (simp add: sample_time_def)
qed

lemma set_time_tuple:
  assumes "tag_value tag = PMT_Tuple (a # b # rest)"
    and "to_uint64 a = Inr full_secs" and "to_double b = Inr frac_secs"
  shows "set_time st tag = Inr (st\<lparr>d_sample_t0 := offset tag,
           d_t0 := real (unat full_secs) + frac_secs\<rparr>)"
  using assms by (simp add: set_time_def)

text \<open>
  Claim C3, amended. The anchor events of a buffer are all applied, in the order delivered,
  before the first sample is processed; the last event wins, and every sample of the buffer
  is processed with the anchor it leaves. For an event at offset \<open>k\<close> that carries
  \<open>(full_secs, frac_secs)\<close>, the samples at offsets \<open>j \<ge> k\<close> therefore use the new
  anchor's formula \<open>full_secs + frac_secs + (j - k) / samp_rate\<close>.
\<close>

theorem anchor_applies_to_whole_buffer:
  assumes "table_ok st" and "set_times st tags = Inr st1"
    and "tag_value tag = PMT_Tuple (a # b # rest)"
    and "to_uint64 a = Inr full_secs" and "to_double b = Inr frac_secs"
    and "offset tag = nw + word_of_nat k"
    and "length ins < 2 ^ 31" and "d_samp_rate st \<noteq> 0"
  shows "\<exists>st' ls. work_trace phase_wrap st nw (tags @ [tag]) ins = Inr (st', ls)
       \<and> length ls = length ins
       \<and> d_t0 st' = real (unat full_secs) + frac_secs \<and> d_sample_t0 st' = offset tag
       \<and> (\<forall>j<length ins. s_time (ls ! j) = sample_time st' nw j)
       \<and> (\<forall>j<length ins. k \<le> j \<longrightarrow>
            s_time (ls ! j) = real (unat full_secs) + frac_secs + real (j - k) / d_samp_rate st)"
proof -
  let ?st2 = "st1\<lparr>d_sample_t0 := offset tag, d_t0 := real (unat full_secs) + frac_secs\<rparr>"
  have s: "set_times st (tags @ [tag]) = Inr ?st2"
    using assms(2) set_time_tuple [OF assms(3,4,5), of st1] by (simp add: set_times_append)
  have f: "times_vec st1 = times_vec st" "freqs_rad_per_sample st1 = freqs_rad_per_sample st"
    "d_current_index st1 = d_current_index st" "d_samp_rate st1 = d_samp_rate st"
    using set_times_table [OF assms(2)] by simp_all
  with assms(1) have ok: "table_ok ?st2" by (simp add: table_ok_def)
  from work_loop_total [OF ok] obtain st' ls
    where w: "work_loop phase_wrap nw ?st2 0 ins = Inr (st', ls)" by blast
  with s have t: "work_trace phase_wrap st nw (tags @ [tag]) ins = Inr (st', ls)"
    by (simp add: work_trace_def)
  note a = work_loop_anchor [OF w]
  have tm: "s_time (ls ! j) = sample_time ?st2 nw j" if "j < length ins" for j
    using work_loop_times [OF w that] by simp
  have e: "sample_time st' nw j = sample_time ?st2 nw j" for j
    using a by (intro sample_time_anchor) simp_all
  have n: "s_time (ls ! j) = real (unat full_secs) + frac_secs + real (j - k) / d_samp_rate st"
    if "j < length ins" "k \<le> j" for j
  proof -
    from that(1) assms(7) have "j < 2 ^ 31" by simp
    from sample_time_after_anchor [OF that(2) this, of ?st2 nw] assms(6) f(4) tm [OF that(1)]
    show ?thesis by simp
  qed
  from t work_loop_length [OF w] a tm e n show ?thesis by simp
qed

theorem anchor_applies_to_whole_buffer_witness:
  "table_ok \<lparr>times_vec = [0, 10], freqs_rad_per_sample = [0, pi], d_phase = 0,
        d_samp_rate = 1, d_current_index = 0, d_t0 = 0, d_sample_t0 = 0\<rparr>
   \<and> to_uint64 (PMT_UInt64 5) = Inr 5 \<and> to_double (PMT_Real 0) = Inr 0
   \<and> (1 :: 64 word) = 0 + word_of_nat 1 \<and> length [1, 1 :: complex] < 2 ^ 31
   \<and> map s_time (snd (projr (work_trace id
        \<lparr>times_vec = [0, 10], freqs_rad_per_sample = [0, pi], d_phase = 0,
         d_samp_rate = 1, d_current_index = 0, d_t0 = 0, d_sample_t0 = 0\<rparr>
        0 [\<lparr>offset = 1, tag_value = PMT_Tuple [PMT_UInt64 5, PMT_Real 0]\<rparr>] [1, 1]))) ! 1 = 5"
  using anchor_applies_to_whole_buffer [of
      "\<lparr>times_vec = [0, 10], freqs_rad_per_sample = [0, pi], d_phase = 0,
        d_samp_rate = 1, d_current_index = 0, d_t0 = 0, d_sample_t0 = 0\<rparr>" "[]"
      "\<lparr>times_vec = [0, 10], freqs_rad_per_sample = [0, pi], d_phase = 0,
        d_samp_rate = 1, d_current_index = 0, d_t0 = 0, d_sample_t0 = 0\<rparr>"
      "\<lparr>offset = 1, tag_value = PMT_Tuple [PMT_UInt64 5, PMT_Real 0]\<rparr>"
      "PMT_UInt64 5" "PMT_Real 0" "[]" 5 0 0 1 "[1, 1]" id]
  by (auto simp: table_ok_def)

text \<open>
  Claim C3 says that the samples before the offset of an anchor event are processed with
  the anchor held before. They are not: with the anchor \<open>(0, 0)\<close>, a rate of 1 and an
  event at offset 1 that sets the time 5, sample 0 is processed with the new anchor (and
  with the wrapped difference \<open>0 - 1\<close>), not at time 0 as the old anchor gives.
\<close>

theorem anchor_override_counterexample:
  "map s_time (snd (projr (work_trace id
        \<lparr>times_vec = [0, 10], freqs_rad_per_sample = [0, pi], d_phase = 0,
         d_samp_rate = 1, d_current_index = 0, d_t0 = 0, d_sample_t0 = 0\<rparr>
        0 [\<lparr>offset = 1, tag_value = PMT_Tuple [PMT_UInt64 5, PMT_Real 0]\<rparr>] [1, 1])))
     = [18446744073709551620, 5]
   \<and> sample_time \<lparr>times_vec = [0, 10], freqs_rad_per_sample = [0, pi], d_phase = 0,
         d_samp_rate = 1, d_current_index = 0, d_t0 = 0, d_sample_t0 = 0\<rparr> 0 0 = 0
   \<and> map s_time (snd (projr (work_trace id
        \<lparr>times_vec = [0, 10], freqs_rad_per_sample = [0, pi], d_phase = 0,
         d_samp_rate = 1, d_current_index = 0, d_t0 = 0, d_sample_t0 = 0\<rparr>
        0 [\<lparr>offset = 1, tag_value = PMT_Tuple [PMT_UInt64 5, PMT_Real 0]\<rparr>] [1, 1]))) ! 0
     \<noteq> sample_time \<lparr>times_vec = [0, 10], freqs_rad_per_sample = [0, pi], d_phase = 0,
         d_samp_rate = 1, d_current_index = 0, d_t0 = 0, d_sample_t0 = 0\<rparr> 0 0"
  by (simp add: work_trace_def work_sample_def sample_time_def query_frequency_def
      advance_index.simps Let_def set_time_def unsigned_minus_1_eq_mask mask_eq_exp_minus_1)

section \<open>Properties of the loop that reads the file\<close>

lemma read_loop_eof: "eof s \<Longrightarrow> read_loop r s t f ts fs = Inr (ts, fs)"
  by (subst read_loop.simps) simp

lemma read_loop_not_good: "\<not> eof s \<Longrightarrow> \<not> good s \<Longrightarrow> read_loop r s t f ts fs = Inl FormatError"
  by (subst read_loop.simps) simp

lemma read_loop_pass:
  assumes "good s" "extract_double s t = (s1, t')" "extract_double s1 f = (s2, f')"
  shows "read_loop r s t f ts fs = read_loop r s2 t' f' (ts @ [t']) (fs @ [2 * pi * f' / r])"
  using assms by (subst read_loop.simps) (simp add: good_def eof_def)

lemma extract_double_refused:
  "\<not> good s \<Longrightarrow> extract_double s v = (s\<lparr>failbit := True\<rparr>, v)"
  by (simp add: extract_double_def sentry_def)

lemma extract_double_only_space:
  assumes "good s" "\<forall>c\<in>set (buf s). is_space c"
  shows "extract_double s v = (s\<lparr>buf := [], eofbit := True, failbit := True\<rparr>, v)"
proof -
  from assms(2) have "dropWhile is_space (buf s) = []" by (simp add: dropWhile_eq_Nil_conv)
  with assms(1) show ?thesis by (simp add: extract_double_def sentry_def)
qed

lemma read_loop_only_space:
  assumes "good s" "\<forall>c\<in>set (buf s). is_space c"
  shows "read_loop r s t f ts fs = Inr (ts @ [t], fs @ [2 * pi * f / r])"
proof -
  let ?s1 = "s\<lparr>buf := [], eofbit := True, failbit := True\<rparr>"
  have 1: "extract_double s t = (?s1, t)" using assms by (rule extract_double_only_space)
  have 2: "extract_double ?s1 f = (?s1, f)"
    using extract_double_refused [of ?s1 f] by (simp add: good_def)
  have "read_loop r s t f ts fs = read_loop r ?s1 t f (ts @ [t]) (fs @ [2 * pi * f / r])"
    using assms(1) 1 2 by (rule read_loop_pass)
  also have "\<dots> = Inr (ts @ [t], fs @ [2 * pi * f / r])"
    by (rule read_loop_eof) (simp add: eof_def)
  finally show ?thesis .
qed

lemma read_loop_lengths:
  "read_loop r s t f ts fs = Inr (ts', fs') \<Longrightarrow> length fs = length ts \<Longrightarrow>
   length fs' = length ts' \<and> length ts \<le> length ts'"
proof (induction r s t f ts fs rule: read_loop.induct)
  case (1 r s t f ts fs)
  show ?case
  proof (cases "eof s")
    case True
    with "1.prems" show ?thesis by (simp add: read_loop_eof)
  next
    case False
    with "1.prems"(1) have g: "good s"
      by (cases "good s") (simp_all add: read_loop_not_good)
    obtain s1 t' where a: "extract_double s t = (s1, t')" by (cases "extract_double s t")
    obtain s2 f' where b: "extract_double s1 f = (s2, f')" by (cases "extract_double s1 f")
    from "1.prems"(1) have
      "read_loop r s2 t' f' (ts @ [t']) (fs @ [2 * pi * f' / r]) = Inr (ts', fs')"
      by (simp add: read_loop_pass [OF g a b])
    moreover from g have "\<not> \<not> good s" by simp
    ultimately show ?thesis
      using "1.IH" [OF False _ a [symmetric] b [symmetric]] "1.prems"(2) by simp
  qed
qed

lemma read_loop_error: "read_loop r s t f ts fs = Inl e \<Longrightarrow> e = FormatError"
proof (induction r s t f ts fs rule: read_loop.induct)
  case (1 r s t f ts fs)
  show ?case
  proof (cases "eof s")
    case True
    with "1.prems" show ?thesis by (simp add: read_loop_eof)
  next
    case False
    show ?thesis
    proof (cases "good s")
      case g: True
      obtain s1 t' where a: "extract_double s t = (s1, t')" by (cases "extract_double s t")
      obtain s2 f' where b: "extract_double s1 f = (s2, f')" by (cases "extract_double s1 f")
      from "1.prems"(1) have
        "read_loop r s2 t' f' (ts @ [t']) (fs @ [2 * pi * f' / r]) = Inl e"
        by (simp add: read_loop_pass [OF g a b])
      moreover from g have "\<not> \<not> good s" by simp
      ultimately show ?thesis
        using "1.IH" [OF False _ a [symmetric] b [symmetric]] by simp
    next
      case False
      with \<open>\<not> eof s\<close> "1.prems" show ?thesis by (simp add: read_loop_not_good)
    qed
  qed
qed

lemma read_loop_rate:
  "map_sum id fst (read_loop r s t f ts fs) = map_sum id fst (read_loop r' s t f ts fs')"
proof (induction r s t f ts fs arbitrary: fs' rule: read_loop.induct)
  case (1 r s t f ts fs)
  show ?case
  proof (cases "eof s")
    case True
    then show ?thesis by (simp add: read_loop_eof)
  next
    case False
    show ?thesis
    proof (cases "good s")
      case g: True
      obtain s1 t' where a: "extract_double s t = (s1, t')" by (cases "extract_double s t")
      obtain s2 f' where b: "extract_double s1 f = (s2, f')" by (cases "extract_double s1 f")
      from g have "\<not> \<not> good s" by simp
      from "1.IH" [OF False this a [symmetric] b [symmetric], of "fs' @ [2 * pi * f' / r']"]
      show ?thesis by (simp add: read_loop_pass [OF g a b])
    next
      case False
      with \<open>\<not> eof s\<close> show ?thesis by (simp add: read_loop_not_good)
    qed
  qed
qed

lemma read_doppler_file_not_empty:
  assumes "read_doppler_file file r t f = Inr (ts, fs)"
  shows "length fs = length ts \<and> ts \<noteq> []"
proof -
  let ?s = "ifstream_open file"
  have ne: "\<not> eof ?s" by (simp add: ifstream_open_def eof_def split: option.splits)
  from assms have rl: "read_loop r ?s t f [] [] = Inr (ts, fs)"
    by (simp add: read_doppler_file_def)
  with ne have g: "good ?s" by (cases "good ?s") (simp_all add: read_loop_not_good)
  obtain s1 t' where a: "extract_double ?s t = (s1, t')" by (cases "extract_double ?s t")
  obtain s2 f' where b: "extract_double s1 f = (s2, f')" by (cases "extract_double s1 f")
  from rl have "read_loop r s2 t' f' ([] @ [t']) ([] @ [2 * pi * f' / r]) = Inr (ts, fs)"
    by (simp add: read_loop_pass [OF g a b])
  from read_loop_lengths [OF this] show ?thesis by auto
qed

lemma read_doppler_file_only_space:
  assumes "\<forall>c\<in>set content. is_space c"
  shows "read_doppler_file (Some content) r t f = Inr ([t], [2 * pi * f / r])"
  unfolding read_doppler_file_def
  using read_loop_only_space [of "ifstream_open (Some content)" r t f "[]" "[]"] assms
  by (simp add: ifstream_open_def good_def)

lemma read_doppler_file_unopened: "read_doppler_file None r t f = Inl FormatError"
  unfolding read_doppler_file_def
  by (rule read_loop_not_good) (simp_all add: ifstream_open_def good_def eof_def)

text \<open>
  A field that the conversion consumes whole is read in the same way when white space
  follows it, except that the conversion then stops before the end of the input. This
  gives the table for a file of lines, each a time, a blank, a frequency and a newline.
\<close>

lemma is_space_not_numeric:
  assumes "is_space c"
  shows "\<not> is_digit c" "\<not> is_sign c" "c \<noteq> CHR ''.''" "c \<noteq> CHR ''e''" "c \<noteq> CHR ''E''"
  using assms by (auto simp: is_space_def is_digit_def is_sign_def)

lemma takeWhile_stop: "\<not> P c \<Longrightarrow> takeWhile P (xs @ c # rest) = takeWhile P xs"
  by (induction xs) auto

lemma dropWhile_stop: "\<not> P c \<Longrightarrow> dropWhile P (xs @ c # rest) = dropWhile P xs @ c # rest"
  by (induction xs) auto

lemma take_sign_stop:
  assumes "is_space c" "take_sign cs = (sg, r)"
  shows "take_sign (cs @ c # rest) = (sg, r @ c # rest)"
  using assms is_space_not_numeric(2) [OF assms(1)]
  by (cases cs) (auto simp: take_sign_def split: if_splits)

lemma take_fraction_stop:
  assumes "is_space c" "take_fraction cs = (d, fp, r)"
  shows "take_fraction (cs @ c # rest) = (d, fp, r @ c # rest)"
  using assms is_space_not_numeric [OF assms(1)]
  by (cases cs) (auto simp: take_fraction_def takeWhile_stop dropWhile_stop split: if_splits)

lemma take_exponent_stop:
  assumes "is_space c" "take_exponent b cs = (sci, esg, ed, r)"
  shows "take_exponent b (cs @ c # rest) = (sci, esg, ed, r @ c # rest)"
proof (cases cs)
  case Nil
  with assms is_space_not_numeric [OF assms(1)] show ?thesis
    by (auto simp: take_exponent_def)
next
  case (Cons x xs)
  obtain sg r' where s: "take_sign xs = (sg, r')" by (cases "take_sign xs")
  note s' = take_sign_stop [OF assms(1) s, of rest]
  from assms Cons s s' is_space_not_numeric [OF assms(1)] show ?thesis
    by (auto simp: take_exponent_def takeWhile_stop dropWhile_stop split: if_splits)
qed

lemma num_get_double_stop:
  assumes "is_space c" "num_get_double cs = (v, r, e)"
  shows "num_get_double (cs @ c # rest) = (v, r @ c # rest, False)"
proof -
  note n = is_space_not_numeric [OF assms(1)]
  obtain sg r0 where a: "take_sign cs = (sg, r0)" by (cases "take_sign cs")
  obtain d fp r2 where b: "take_fraction (dropWhile is_digit r0) = (d, fp, r2)"
    by (cases "take_fraction (dropWhile is_digit r0)")
  let ?fm = "takeWhile is_digit r0 \<noteq> [] \<or> fp \<noteq> []"
  obtain sci esg ed r3 where c: "take_exponent ?fm r2 = (sci, esg, ed, r3)"
    by (cases "take_exponent ?fm r2") auto
  note a' = take_sign_stop [OF assms(1) a, of rest]
  note b' = take_fraction_stop [OF assms(1) b, of rest]
  note c' = take_exponent_stop [OF assms(1) c, of rest]
  from assms(2) a b c have "r = r3"
    and "v = fst (num_get_double cs)"
    by (auto simp: num_get_double_def Let_def)
  with a b c a' b' c' n(1) show ?thesis
    by (simp add: num_get_double_def Let_def takeWhile_stop dropWhile_stop)
qed

lemma num_get_double_starts:
  assumes "num_get_double cs = (Converted v, r, e)"
  shows "cs \<noteq> [] \<and> \<not> is_space (hd cs)"
proof (cases cs)
  case Nil
  with assms show ?thesis
    by (simp add: num_get_double_def take_sign_def take_fraction_def take_exponent_def)
next
  case (Cons x xs)
  have "num_get_double (x # xs) = (Failed 0, x # xs, False)" if "is_space x"
    using is_space_not_numeric [OF that]
    by (simp add: num_get_double_def take_sign_def take_fraction_def take_exponent_def)
  with assms Cons show ?thesis by auto
qed

lemma extract_double_token:
  assumes "good s" and "buf s = ws @ a @ c # rest" and "\<forall>x\<in>set ws. is_space x"
    and "num_get_double a = (Converted v, [], e)" and "is_space c"
  shows "extract_double s t = (s\<lparr>buf := c # rest\<rparr>, v)"
proof -
  from num_get_double_starts [OF assms(4)] obtain x xs where a: "a = x # xs" "\<not> is_space x"
    by (cases a) auto
  with assms(3) have d: "dropWhile is_space (buf s) = a @ c # rest"
    unfolding assms(2) by (simp add: dropWhile_append3 dropWhile_append2)
  from num_get_double_stop [OF assms(5,4), of rest]
  have "num_get_double (a @ c # rest) = (Converted v, c # rest, False)" by simp
  with d assms(1) a show ?thesis
    by (simp add: extract_double_def sentry_def good_def)
qed


lemma read_loop_lines:
  assumes "\<forall>(a, x, b, y)\<in>set recs.
             (\<exists>e. num_get_double a = (Converted x, [], e))
             \<and> (\<exists>e. num_get_double b = (Converted y, [], e))"
    and "\<forall>c\<in>set ws. is_space c"
  shows "read_loop r
           \<lparr>buf = ws @ concat (map (\<lambda>(a, x, b, y). a @ '' '' @ b @ ''\<newline>'') recs),
            eofbit = False, failbit = False\<rparr> t f ts fs
         = Inr (ts @ map (\<lambda>(a, x, b, y). x) recs @ [last (t # map (\<lambda>(a, x, b, y). x) recs)],
                fs @ map (\<lambda>(a, x, b, y). 2 * pi * y / r) recs
                   @ [2 * pi * last (f # map (\<lambda>(a, x, b, y). y) recs) / r])"
  using assms
proof (induction recs arbitrary: ws t f ts fs)
  case Nil
  then show ?case
    using read_loop_only_space [of "\<lparr>buf = ws, eofbit = False, failbit = False\<rparr>" r t f ts fs]
    by (simp add: good_def)
next
  case (Cons rec recs)
  obtain a x b y where rec: "rec = (a, x, b, y)" by (cases rec)
  let ?tail = "concat (map (\<lambda>(a, x, b, y). a @ '' '' @ b @ ''\<newline>'') recs)"
  let ?s = "\<lparr>buf = ws @ concat (map (\<lambda>(a, x, b, y). a @ '' '' @ b @ ''\<newline>'') (rec # recs)),
            eofbit = False, failbit = False\<rparr>"
  let ?s1 = "\<lparr>buf = CHR '' '' # b @ CHR 0x0A # ?tail, eofbit = False, failbit = False\<rparr>"
  let ?s2 = "\<lparr>buf = [CHR 0x0A] @ ?tail, eofbit = False, failbit = False\<rparr>"
  from Cons.prems(1) rec obtain e1 e2 where a: "num_get_double a = (Converted x, [], e1)"
    and b: "num_get_double b = (Converted y, [], e2)" by auto
  have g: "good ?s" by (simp add: good_def)
  have 1: "extract_double ?s t = (?s1, x)"
    using extract_double_token [OF g _ Cons.prems(2) a, of "CHR '' ''" "b @ CHR 0x0A # ?tail" t]
    by (simp add: rec is_space_def)
  have 2: "extract_double ?s1 f = (?s2, y)"
    using extract_double_token [of ?s1 "[CHR '' '']" b "CHR 0x0A" ?tail y e2 f] b
    by (simp add: good_def is_space_def)
  have sp: "\<forall>c\<in>set [CHR 0x0A]. is_space c" by (simp add: is_space_def)
  from Cons.prems(1) have rest: "\<forall>(a, x, b, y)\<in>set recs.
             (\<exists>e. num_get_double a = (Converted x, [], e))
             \<and> (\<exists>e. num_get_double b = (Converted y, [], e))"
    by simp
  have "read_loop r ?s t f ts fs = read_loop r ?s2 x y (ts @ [x]) (fs @ [2 * pi * y / r])"
    using g 1 2 by (rule read_loop_pass)
  also note Cons.IH [OF rest sp, of x y "ts @ [x]" "fs @ [2 * pi * y / r]"]
  finally show ?case by (simp add: rec)
qed

lemma read_doppler_file_lines:
  assumes "\<forall>(a, x, b, y)\<in>set recs.
             (\<exists>e. num_get_double a = (Converted x, [], e))
             \<and> (\<exists>e. num_get_double b = (Converted y, [], e))"
  shows "read_doppler_file
           (Some (concat (map (\<lambda>(a, x, b, y). a @ '' '' @ b @ ''\<newline>'') recs))) r t f
         = Inr (map (\<lambda>(a, x, b, y). x) recs @ [last (t # map (\<lambda>(a, x, b, y). x) recs)],
                map (\<lambda>(a, x, b, y). 2 * pi * y / r) recs
                   @ [2 * pi * last (f # map (\<lambda>(a, x, b, y). y) recs) / r])"
  using read_loop_lines [OF assms, of "[]" r t f "[]" "[]"]
  by (simp add: read_doppler_file_def ifstream_open_def)

lemmas read_eval = read_doppler_file_def make_doppler_correction_def read_loop.simps stream_eval

lemma read_loop_failed_pass:
  assumes "good s" "extract_double s t = (s1, t')" "extract_double s1 f = (s2, f')"
    and "\<not> eof s2" "\<not> good s2"
  shows "read_loop r s t f ts fs = Inl FormatError"
  using read_loop_pass [OF assms(1,2,3)] read_loop_not_good [OF assms(4,5)] by simp

text \<open>
  A field too large for a \<^verbatim>\<open>double\<close> sets \<^verbatim>\<open>failbit\<close>; followed by more input it makes
  the loop throw.
\<close>

lemma overflowing_field_rejected:
  "num_get_double ''1e309'' = (Failed dbl_max, [], True)
   \<and> read_doppler_file (Some ''1e309 2\<newline>'') 1 0 0 = Inl FormatError"
  by (simp add: read_doppler_file_def read_loop.simps ifstream_open_def eof_def good_def
      extract_double_def sentry_def num_get_double_def take_sign_def take_fraction_def
      take_exponent_def scale10_def is_digit_def is_sign_def is_space_def digits_val_def
      digit_val_def Let_def dbl_overflows_def)

text \<open>
  Claim C10, amended. White space after the last complete record is not an error. After a
  pass that has read a complete record and left only white space in a good stream, the
  loop ends without an exception, and the records read up to and including that one are
  the leading entries of the table, each a time with the angular frequency
  \<open>2 * pi * frequency / samp_rate\<close>. In particular, for a file of at least one line, each
  a time, a blank, a frequency and a newline, the table begins with one entry for every
  line, in the order of the file. What the table holds after these entries is not stated
  here.
\<close>

theorem trailing_space_keeps_records:
  "(good s \<and> extract_double s t = (s1, t') \<and> extract_double s1 f = (s2, f')
        \<and> good s2 \<and> (\<forall>c\<in>set (buf s2). is_space c)
      \<longrightarrow> (\<exists>ts' fs'. read_loop r s t f ts fs = Inr (ts', fs')
             \<and> take (length ts + 1) ts' = ts @ [t']
             \<and> take (length fs + 1) fs' = fs @ [2 * pi * f' / r]))
   \<and> (recs \<noteq> []
        \<and> (\<forall>(a, x, b, y)\<in>set recs.
              (\<exists>e. num_get_double a = (Converted x, [], e))
               \<and> (\<exists>e. num_get_double b = (Converted y, [], e)))
      \<longrightarrow> (\<exists>ts' fs'. read_doppler_file
               (Some (concat (map (\<lambda>(a, x, b, y). a @ '' '' @ b @ ''\<newline>'') recs))) r t f
               = Inr (ts', fs')
             \<and> take (length recs) ts' = map (\<lambda>(a, x, b, y). x) recs
             \<and> take (length recs) fs' = map (\<lambda>(a, x, b, y). 2 * pi * y / r) recs))"
proof (intro conjI impI)
  assume a: "good s \<and> extract_double s t = (s1, t') \<and> extract_double s1 f = (s2, f')
        \<and> good s2 \<and> (\<forall>c\<in>set (buf s2). is_space c)"
  then have g: "good s" and e1: "extract_double s t = (s1, t')"
    and e2: "extract_double s1 f = (s2, f')" and g2: "good s2"
    and sp: "\<forall>c\<in>set (buf s2). is_space c"
    by blast+
  have "read_loop r s t f ts fs
      = read_loop r s2 t' f' (ts @ [t']) (fs @ [2 * pi * f' / r])"
    using g e1 e2 by (rule read_loop_pass)
  also have "\<dots> = Inr ((ts @ [t']) @ [t'], (fs @ [2 * pi * f' / r]) @ [2 * pi * f' / r])"
    using g2 sp by (rule read_loop_only_space)
  finally show "\<exists>ts' fs'. read_loop r s t f ts fs = Inr (ts', fs')
             \<and> take (length ts + 1) ts' = ts @ [t']
             \<and> take (length fs + 1) fs' = fs @ [2 * pi * f' / r]"
    by simp
next
  assume "recs \<noteq> []
        \<and> (\<forall>(a, x, b, y)\<in>set recs.
              (\<exists>e. num_get_double a = (Converted x, [], e))
               \<and> (\<exists>e. num_get_double b = (Converted y, [], e)))"
  then have "\<forall>(a, x, b, y)\<in>set recs.
              (\<exists>e. num_get_double a = (Converted x, [], e))
               \<and> (\<exists>e. num_get_double b = (Converted y, [], e))"
    by blast
  from read_doppler_file_lines [OF this, of r t f]
  show "\<exists>ts' fs'. read_doppler_file
               (Some (concat (map (\<lambda>(a, x, b, y). a @ '' '' @ b @ ''\<newline>'') recs))) r t f
               = Inr (ts', fs')
             \<and> take (length recs) ts' = map (\<lambda>(a, x, b, y). x) recs
             \<and> take (length recs) fs' = map (\<lambda>(a, x, b, y). 2 * pi * y / r) recs"
    by simp
qed

theorem trailing_space_keeps_records_witness:
  "good (ifstream_open (Some ''1 2\<newline>''))
   \<and> extract_double (ifstream_open (Some ''1 2\<newline>'')) 0
        = (\<lparr>buf = '' 2\<newline>'', eofbit = False, failbit = False\<rparr>, 1)
   \<and> extract_double \<lparr>buf = '' 2\<newline>'', eofbit = False, failbit = False\<rparr> 0
        = (\<lparr>buf = ''\<newline>'', eofbit = False, failbit = False\<rparr>, 2)
   \<and> good \<lparr>buf = ''\<newline>'', eofbit = False, failbit = False\<rparr>
   \<and> list_all is_space ''\<newline>''
   \<and> (\<exists>ts' fs'. read_loop 1 (ifstream_open (Some ''1 2\<newline>'')) 0 0 [] [] = Inr (ts', fs')
        \<and> take 1 ts' = [1] \<and> take 1 fs' = [4 * pi])
   \<and> num_get_double ''0'' = (Converted 0, [], True)
   \<and> num_get_double ''1'' = (Converted 1, [], True)
   \<and> num_get_double ''10'' = (Converted 10, [], True)
   \<and> (\<exists>ts' fs'. read_doppler_file (Some ''0 0\<newline>1 10\<newline>'') 1 0 0 = Inr (ts', fs')
        \<and> take 2 ts' = [0, 1] \<and> take 2 fs' = [0, 20 * pi])"
  using trailing_space_keeps_records [of "ifstream_open (Some ''1 2\<newline>'')"
      0 "\<lparr>buf = '' 2\<newline>'', eofbit = False, failbit = False\<rparr>" 1 0
      "\<lparr>buf = ''\<newline>'', eofbit = False, failbit = False\<rparr>" 2 1 "[]" "[]"
      "[(''0'', 0, ''0'', 0), (''1'', 1, ''10'', 10)]"]
  by (auto simp: stream_eval numeral_2_eq_2)

text \<open>
  Claim C10 says that the extra record after trailing white space is \<open>(0, 0)\<close>. For the
  source \<^verbatim>\<open>1 2\<close> followed by a newline the table is \<open>(1, 4 * pi)\<close> twice, even when both
  locals start at 0; a file of two lines gives three entries, the last two equal.
\<close>

theorem trailing_space_counterexample:
  "read_doppler_file (Some ''1 2\<newline>'') 1 0 0 = Inr ([1, 1], [4 * pi, 4 * pi])
   \<and> read_doppler_file (Some ''1 2\<newline>'') 1 0 0 \<noteq> Inr ([1, 0], [4 * pi, 0])
   \<and> read_doppler_file (Some ''0 0\<newline>1 10\<newline>'') 1000 0 0
       = Inr ([0, 1, 1], [0, pi / 50, pi / 50])"
  by (simp add: read_eval)

text \<open>
  Claim C4, amended. A source that cannot be opened makes the construction fail with the
  format error, which is the only error the construction raises (the code has no error of
  its own for an empty table). When \<^verbatim>\<open>read_doppler_file\<close> succeeds the two vectors have
  equal length and are not empty, and the block that the construction returns has its
  index inside them.
\<close>

theorem load_postcondition:
  "make_doppler_correction None samp_rate t0 time0 frequency0 = Inl FormatError
   \<and> (make_doppler_correction file samp_rate t0 time0 frequency0 = Inl e \<longrightarrow> e = FormatError)
   \<and> (read_doppler_file file samp_rate time0 frequency0 = Inr (ts, fs)
      \<longrightarrow> length fs = length ts \<and> ts \<noteq> [])
   \<and> (make_doppler_correction file samp_rate t0 time0 frequency0 = Inr st \<longrightarrow> table_ok st)"
proof (intro conjI impI)
  show "make_doppler_correction None samp_rate t0 time0 frequency0 = Inl FormatError"
    by (simp add: make_doppler_correction_def read_doppler_file_unopened)
next
  assume "make_doppler_correction file samp_rate t0 time0 frequency0 = Inl e"
  then show "e = FormatError"
    using read_loop_error [of samp_rate "ifstream_open file" time0 frequency0 "[]" "[]" e]
    by (auto simp: make_doppler_correction_def read_doppler_file_def split: sum.splits)
next
  assume "read_doppler_file file samp_rate time0 frequency0 = Inr (ts, fs)"
  then show "length fs = length ts" "ts \<noteq> []"
    using read_doppler_file_not_empty by blast+
next
  assume "make_doppler_correction file samp_rate t0 time0 frequency0 = Inr st"
  then obtain ts fs where r: "read_doppler_file file samp_rate time0 frequency0 = Inr (ts, fs)"
    and st: "st = \<lparr>times_vec = ts, freqs_rad_per_sample = fs, d_phase = 0,
               d_samp_rate = samp_rate, d_current_index = 0, d_t0 = t0, d_sample_t0 = 0\<rparr>"
    by (auto simp: make_doppler_correction_def split: sum.splits)
  from read_doppler_file_not_empty [OF r] st show "table_ok st"
    by (simp add: table_ok_def)
qed

theorem load_postcondition_witness:
  "make_doppler_correction (Some ''abc def'') 1 0 0 0 = Inl FormatError
   \<and> read_doppler_file (Some ''1 2'') 1 0 0 = Inr ([1], [4 * pi])
   \<and> length [4 * pi] = length [1 :: real] \<and> [1 :: real] \<noteq> []
   \<and> make_doppler_correction (Some ''1 2'') 1 0 0 0
       = Inr \<lparr>times_vec = [1], freqs_rad_per_sample = [4 * pi], d_phase = 0, d_samp_rate = 1,
              d_current_index = 0, d_t0 = 0, d_sample_t0 = 0\<rparr>
   \<and> table_ok \<lparr>times_vec = [1], freqs_rad_per_sample = [4 * pi], d_phase = 0,
              d_samp_rate = 1, d_current_index = 0, d_t0 = 0, d_sample_t0 = 0\<rparr>"
  using load_postcondition [of 1 0 0 0 "Some ''abc def''" FormatError "[]" "[]"
      "\<lparr>times_vec = [], freqs_rad_per_sample = [], d_phase = 0, d_samp_rate = 1,
        d_current_index = 0, d_t0 = 0, d_sample_t0 = 0\<rparr>"]
    load_postcondition [of 1 0 0 0 "Some ''1 2''" FormatError "[1]" "[4 * pi]"
      "\<lparr>times_vec = [1], freqs_rad_per_sample = [4 * pi], d_phase = 0, d_samp_rate = 1,
        d_current_index = 0, d_t0 = 0, d_sample_t0 = 0\<rparr>"]
  by (simp add: read_eval)

text \<open>
  Claim C4 says that a source with no record makes the construction fail. For the empty
  file it does not: a block is returned (here both locals happen to hold 0).
\<close>

theorem empty_source_counterexample:
  "make_doppler_correction (Some []) 1000 0 0 0
     = Inr \<lparr>times_vec = [0], freqs_rad_per_sample = [0], d_phase = 0, d_samp_rate = 1000,
            d_current_index = 0, d_t0 = 0, d_sample_t0 = 0\<rparr>"
  by (simp add: read_eval)

text \<open>
  Claim C5, amended. The construction does not inspect the sample rate. With a sample rate
  that is not positive it fails on exactly the sources on which it fails with a positive
  one, always with the format error of the reader; otherwise it returns a block that holds
  the given sample rate and the same times.
\<close>

theorem sample_rate_not_checked:
  assumes "samp_rate \<le> 0" and "0 < r'"
  shows "(make_doppler_correction file samp_rate t0 time0 frequency0 = Inl e
            \<longleftrightarrow> make_doppler_correction file r' t0 time0 frequency0 = Inl e)
    \<and> (make_doppler_correction file samp_rate t0 time0 frequency0 = Inl e \<longrightarrow> e = FormatError)
    \<and> (make_doppler_correction file samp_rate t0 time0 frequency0 = Inr st
        \<longrightarrow> d_samp_rate st = samp_rate
          \<and> (\<exists>st'. make_doppler_correction file r' t0 time0 frequency0 = Inr st' \<and> times_vec st' = times_vec st))"
proof -
  let ?a = "read_doppler_file file samp_rate time0 frequency0"
  let ?b = "read_doppler_file file r' time0 frequency0"
  have eq: "map_sum id fst ?a = map_sum id fst ?b"
    unfolding read_doppler_file_def by (rule read_loop_rate)
  have 1: "make_doppler_correction file samp_rate t0 time0 frequency0 = Inl e
            \<longleftrightarrow> make_doppler_correction file r' t0 time0 frequency0 = Inl e"
    using eq by (cases ?a; cases ?b) (auto simp: make_doppler_correction_def)
  have 2: "e = FormatError" if "make_doppler_correction file samp_rate t0 time0 frequency0 = Inl e"
    using that read_loop_error [of samp_rate "ifstream_open file" time0 frequency0 "[]" "[]" e]
    by (auto simp: make_doppler_correction_def read_doppler_file_def split: sum.splits)
  have 3: "d_samp_rate st = samp_rate
          \<and> (\<exists>st'. make_doppler_correction file r' t0 time0 frequency0 = Inr st' \<and> times_vec st' = times_vec st)"
    if "make_doppler_correction file samp_rate t0 time0 frequency0 = Inr st"
    using that eq by (cases ?a; cases ?b) (auto simp: make_doppler_correction_def)
  from 1 2 3 show ?thesis by blast
qed

theorem sample_rate_not_checked_witness:
  "(-1 :: real) \<le> 0 \<and> (0 :: real) < 1
   \<and> make_doppler_correction (Some ''abc def'') (-1) 0 0 0 = Inl FormatError
   \<and> make_doppler_correction (Some ''abc def'') 1 0 0 0 = Inl FormatError
   \<and> d_samp_rate (projr (make_doppler_correction (Some ''0 0'') (-1) 0 0 0)) = -1"
  using sample_rate_not_checked [of "-1" 1 "Some ''abc def''" 0 0 0 FormatError]
    sample_rate_not_checked [of "-1" 1 "Some ''0 0''" 0 0 0 FormatError
      "projr (make_doppler_correction (Some ''0 0'') (-1) 0 0 0)"]
  by (simp add: read_eval)

text \<open>
  Claim C5 says that a sample rate that is not positive makes the construction fail. With
  the sample rate \<open>-1\<close> and a well-formed source a block is returned.
\<close>

theorem sample_rate_counterexample:
  "make_doppler_correction (Some ''0 0'') (-1) 0 0 0
     = Inr \<lparr>times_vec = [0], freqs_rad_per_sample = [0], d_phase = 0, d_samp_rate = -1,
            d_current_index = 0, d_t0 = 0, d_sample_t0 = 0\<rparr>"
  by (simp add: read_eval)

text \<open>
  Claim C6 on concrete sources. A last field that cannot be parsed and runs up to the end
  of the input (a lone sign) sets \<^verbatim>\<open>eofbit\<close> together with \<^verbatim>\<open>failbit\<close>, so the loop ends
  before its test of \<^verbatim>\<open>good()\<close>: the source \<^verbatim>\<open>1 -\<close> is accepted with the frequency 0,
  and so is a last record without its frequency, which takes the one of the record before.
  A malformed field that is followed by more input is rejected, and a complete record
  followed by the end of the input is accepted.
\<close>

theorem malformed_last_field_accepted:
  "read_doppler_file (Some ''1 -'') 1 0 0 = Inr ([1], [0])
   \<and> make_doppler_correction (Some ''1 -'') 1 0 0 0
       = Inr \<lparr>times_vec = [1], freqs_rad_per_sample = [0], d_phase = 0, d_samp_rate = 1,
              d_current_index = 0, d_t0 = 0, d_sample_t0 = 0\<rparr>
   \<and> read_doppler_file (Some ''1 2 3'') 1 0 0 = Inr ([1, 3], [4 * pi, 4 * pi])
   \<and> read_doppler_file (Some ''abc def'') 1 0 0 = Inl FormatError
   \<and> read_doppler_file (Some ''1 x 2 3'') 1 0 0 = Inl FormatError
   \<and> read_doppler_file (Some ''1 2\<newline>3 4'') 1 0 0 = Inr ([1, 3], [4 * pi, 8 * pi])"
  by (simp add: read_eval)

end
